theory Spec2Isabelle
  imports Complex_Main "HOL-Library.Log_Nat"
begin

section \<open>JavaScript values\<close>

text \<open>
  A number of the language is an IEEE double. A finite one is modelled by the rational it
  denotes, the three others are separate constructors. The two zeros are one value.
\<close>

datatype jsnum = Fin rat | NaN | PosInf | NegInf

subsection \<open>Rounding to the nearest double\<close>

text \<open>
  For a positive \<open>a\<close>, \<open>expo a\<close> is the integer \<open>e\<close> with \<open>2 powi e \<le> a < 2 powi (e + 1)\<close>.
  A double has 53 significant bits and an exponent between -1022 and 1023: around \<open>a\<close>
  the doubles are the multiples of \<open>quantum a\<close>. The result of an arithmetic operation is
  the nearest of them, the one with the even significand when two are equally near, and
  an infinity from \<open>2 ^ 1024\<close> on.
\<close>

definition expo :: "rat \<Rightarrow> int" where
  "expo a = (if 1 \<le> a then bitlen \<lfloor>a\<rfloor> - 1 else - bitlen (\<lceil>1 / a\<rceil> - 1))"

definition binade :: "rat \<Rightarrow> int" where
  "binade a = min (max (expo a) (- 1022)) 1023"

definition quantum :: "rat \<Rightarrow> rat" where
  "quantum a = 2 powi (binade a - 52)"

definition round_half_even :: "rat \<Rightarrow> int" where
  "round_half_even m =
     (let n = \<lfloor>m\<rfloor>; f = m - of_int n
      in if f < 1 / 2 then n else if 1 / 2 < f then n + 1 else if even n then n else n + 1)"

definition to_double :: "rat \<Rightarrow> jsnum" where
  "to_double x =
     (if x = 0 then Fin 0
      else let a = \<bar>x\<bar>;
               y = of_int (round_half_even (a / quantum a)) * quantum a
           in if 2 ^ 1024 \<le> y then (if 0 < x then PosInf else NegInf)
              else Fin (if 0 < x then y else - y))"

text \<open>The rationals that are doubles: rounding leaves them as they are.\<close>

definition is_double :: "rat \<Rightarrow> bool" where
  "is_double r = (to_double r = Fin r)"

text \<open>
  A decoded response body is a JSON value; \<open>Undefined\<close> is what reading an absent
  property gives. An object is the association list of its own properties.
\<close>

datatype jsval =
    Undefined
  | Null
  | Bool bool
  | Num jsnum
  | Str string
  | Arr "jsval list"
  | Obj "(string \<times> jsval) list"

section \<open>The username sanitizer (\<open>parseUsername\<close> in \<open>ImageItem\<close>)\<close>

text \<open>The two character classes of the pattern \<^verbatim>\<open>/^["'{]+|[}"']+$/g\<close>.\<close>

definition lead_class :: "char \<Rightarrow> bool" where
  "lead_class c = (c = CHR 0x22 \<or> c = CHR 0x27 \<or> c = CHR ''{'')"

definition trail_class :: "char \<Rightarrow> bool" where
  "trail_class c = (c = CHR ''}'' \<or> c = CHR 0x22 \<or> c = CHR 0x27)"

text \<open>
  One attempt of the pattern at the current position of the input. \<open>at_start\<close> says
  that the position is index 0, \<open>s\<close> is the input from the position on. The first
  alternative \<^verbatim>\<open>^["'{]+\<close> is tried first: it needs index 0 and takes the longest run
  of its class. The second alternative \<^verbatim>\<open>[}"']+$\<close> takes the longest run of its class
  and then needs the end of the input; giving characters back cannot reach the end, so it
  matches only when the run is the whole rest. The result is the length of the match.
\<close>

definition match_here :: "bool \<Rightarrow> string \<Rightarrow> nat option" where
  "match_here at_start s =
     (let n1 = length (takeWhile lead_class s);
          n2 = length (takeWhile trail_class s)
      in if at_start \<and> 0 < n1 then Some n1
         else if 0 < n2 \<and> n2 = length s then Some n2
         else None)"

text \<open>
  \<^verbatim>\<open>usernameString.replace(re, '')\<close> with the global flag: the input is scanned from
  left to right, every match is deleted, every other character is kept, and the scan
  goes on behind a match.
\<close>

function replace_all :: "bool \<Rightarrow> string \<Rightarrow> string" where
  "replace_all at_start [] = []"
| "replace_all at_start (c # cs) =
     (case match_here at_start (c # cs) of
        Some n \<Rightarrow> replace_all False (drop n (c # cs))
      | None \<Rightarrow> c # replace_all False cs)"
  by pat_completeness auto
termination
proof (relation "measure (\<lambda>(b, s). length s)")
  show "wf (measure (\<lambda>(b, s). length s))" by simp
next
  fix at_start :: bool and c :: char and cs :: string and n :: nat
  assume "match_here at_start (c # cs) = Some n"
  then have "0 < n"
    by (auto simp: match_here_def Let_def split: if_splits)
  then show "((False, drop n (c # cs)), (at_start, c # cs)) \<in> measure (\<lambda>(b, s). length s)"
    by simp
next
  fix at_start :: bool and c :: char and cs :: string
  show "((False, cs), (at_start, c # cs)) \<in> measure (\<lambda>(b, s). length s)"
    by simp
qed

definition parseUsername :: "jsval \<Rightarrow> string" where
  "parseUsername usernameString =
     (case usernameString of
        Str s \<Rightarrow>
          (let cleanedString = replace_all True s
           in if cleanedString = [] then ''Unknown User'' else cleanedString)
      | _ \<Rightarrow> ''Unknown User'')"

text \<open>
  The sanitizer as the specification words it: drop the leading run of the first class,
  then the trailing run of the second class.
\<close>

definition strip_spec :: "string \<Rightarrow> string" where
  "strip_spec s = rev (dropWhile trail_class (rev (dropWhile lead_class s)))"

section \<open>Arithmetic and coercions of the language, as far as the component uses them\<close>

text \<open>The order \<^verbatim>\<open><\<close> on numbers: every comparison with \<open>NaN\<close> is false.\<close>

fun num_less :: "jsnum \<Rightarrow> jsnum \<Rightarrow> bool" where
  "num_less NaN _ = False"
| "num_less _ NaN = False"
| "num_less (Fin a) (Fin b) = (a < b)"
| "num_less NegInf b = (b \<noteq> NegInf)"
| "num_less a PosInf = (a \<noteq> PosInf)"
| "num_less _ _ = False"

text \<open>
  Adding a finite literal (\<^verbatim>\<open>x + 1\<close>, and \<^verbatim>\<open>x - 1\<close> as adding \<open>-1\<close>) and dividing by a
  positive finite literal (\<^verbatim>\<open>x / 20\<close>): the exact result is rounded to a double. Neither
  operation changes a non-finite left operand.
\<close>

fun num_plus :: "jsnum \<Rightarrow> rat \<Rightarrow> jsnum" where
  "num_plus (Fin a) k = to_double (a + k)"
| "num_plus n k = n"

fun num_div :: "jsnum \<Rightarrow> rat \<Rightarrow> jsnum" where
  "num_div (Fin a) k = to_double (a / k)"
| "num_div n k = n"

fun math_ceil :: "jsnum \<Rightarrow> jsnum" where
  "math_ceil (Fin a) = Fin (of_int \<lceil>a\<rceil>)"
| "math_ceil n = n"

definition math_max :: "jsnum \<Rightarrow> jsnum \<Rightarrow> jsnum" where
  "math_max a b = (if a = NaN \<or> b = NaN then NaN else if num_less a b then b else a)"

definition math_min :: "jsnum \<Rightarrow> jsnum \<Rightarrow> jsnum" where
  "math_min a b = (if a = NaN \<or> b = NaN then NaN else if num_less b a then b else a)"

text \<open>
  Two conversions belong to the language runtime and are taken as parameters: the number
  a string denotes, and the string an array or an object converts to. Every theorem below
  holds for any choice of them.
\<close>

record runtime =
  string_to_number :: "string \<Rightarrow> jsnum"
  to_string :: "jsval \<Rightarrow> string"

definition ToNumber :: "runtime \<Rightarrow> jsval \<Rightarrow> jsnum" where
  "ToNumber rt v =
     (case v of
        Undefined \<Rightarrow> NaN
      | Null \<Rightarrow> Fin 0
      | Bool b \<Rightarrow> Fin (if b then 1 else 0)
      | Num n \<Rightarrow> n
      | Str s \<Rightarrow> string_to_number rt s
      | Arr _ \<Rightarrow> string_to_number rt (to_string rt v)
      | Obj _ \<Rightarrow> string_to_number rt (to_string rt v))"

text \<open>
  \<^verbatim>\<open>v + 1\<close>: a string operand (or an array or object, which convert to strings) makes
  the operator concatenate; otherwise it adds numbers.
\<close>

definition plus_one :: "runtime \<Rightarrow> jsval \<Rightarrow> jsval" where
  "plus_one rt v =
     (case v of
        Str s \<Rightarrow> Str (s @ ''1'')
      | Arr _ \<Rightarrow> Str (to_string rt v @ ''1'')
      | Obj _ \<Rightarrow> Str (to_string rt v @ ''1'')
      | _ \<Rightarrow> Num (num_plus (ToNumber rt v) 1))"

definition truthy :: "jsval \<Rightarrow> bool" where
  "truthy v =
     (case v of
        Undefined \<Rightarrow> False
      | Null \<Rightarrow> False
      | Bool b \<Rightarrow> b
      | Num n \<Rightarrow> n \<noteq> Fin 0 \<and> n \<noteq> NaN
      | Str s \<Rightarrow> s \<noteq> []
      | Arr _ \<Rightarrow> True
      | Obj _ \<Rightarrow> True)"

definition nullish :: "jsval \<Rightarrow> bool" where
  "nullish v = (v = Undefined \<or> v = Null)"

text \<open>
  Reading a property of a value that is neither \<open>null\<close> nor \<open>undefined\<close>. Only the
  names \<open>images\<close>, \<open>rows\<close>, \<open>rowCount\<close>, \<open>currentPage\<close> and \<open>totalPages\<close> are read, and only
  an object can have one of them.
\<close>

definition field :: "jsval \<Rightarrow> string \<Rightarrow> jsval" where
  "field v k =
     (case v of
        Obj ps \<Rightarrow> (case map_of ps k of Some x \<Rightarrow> x | None \<Rightarrow> Undefined)
      | _ \<Rightarrow> Undefined)"


definition same_value :: "jsval \<Rightarrow> jsval \<Rightarrow> bool" where
  "same_value a b =
     (case a of
        Arr _ \<Rightarrow> False
      | Obj _ \<Rightarrow> False
      | _ \<Rightarrow> a = b)"

section \<open>The state of the \<open>Gallery\<close> component\<close>

record state =
  images :: "jsval list"
  currentPage :: jsval
  totalPages :: jsval
  isLoading :: bool
  error :: "string option"

definition initial :: state where
  "initial =
     \<lparr>images = [], currentPage = Num (Fin 1), totalPages = Num (Fin 1),
      isLoading = False, error = None\<rparr>"

datatype js_error = TypeError | InvalidChild

text \<open>The test \<^verbatim>\<open>data.images && Array.isArray(data.images.rows)\<close>, giving the rows.\<close>

definition rows_of :: "jsval \<Rightarrow> jsval list option" where
  "rows_of data =
     (let container = field data ''images''
      in if truthy container
         then (case field container ''rows'' of Arr rows \<Rightarrow> Some rows | _ \<Rightarrow> None)
         else None)"

definition calculatedTotalPages :: "runtime \<Rightarrow> jsval \<Rightarrow> jsval" where
  "calculatedTotalPages rt data =
     (if num_less (Fin 0) (ToNumber rt (field data ''totalPages''))
      then field data ''totalPages''
      else Num (math_ceil (num_div (ToNumber rt (field (field data ''images'') ''rowCount'')) 20)))"

text \<open>
  \<open>updateGalleryState\<close>. Reading \<^verbatim>\<open>data.images\<close> throws when \<open>data\<close> is \<open>null\<close> or
  \<open>undefined\<close>, before any setter has run; nothing else in the function can throw.
\<close>

definition updateGalleryState :: "runtime \<Rightarrow> jsval \<Rightarrow> state \<Rightarrow> js_error + state" where
  "updateGalleryState rt data s =
     (if nullish data then Inl TypeError
      else case rows_of data of
        Some rows \<Rightarrow>
          Inr (s\<lparr>images := rows,
                 currentPage := field data ''currentPage'',
                 totalPages := calculatedTotalPages rt data\<rparr>)
      | None \<Rightarrow>
          Inr (s\<lparr>error := Some ''Received invalid data from server'', images := []\<rparr>))"

definition handleFetchError :: "state \<Rightarrow> state" where
  "handleFetchError s = s\<lparr>error := Some ''Failed to load images. Please try again later.''\<rparr>"

text \<open>
  \<open>fetchImages\<close> runs in two parts, separated by the \<^verbatim>\<open>await\<close>: the part before the
  request, and the part after the request has settled. The request either rejects or
  resolves with a decoded body. Other operations, a second attempt among them, can run
  between the two parts; \<open>fetchImages\<close> below is an attempt that runs alone.
\<close>

datatype outcome = Rejected | Resolved jsval

definition fetch_start :: "state \<Rightarrow> state" where
  "fetch_start s = s\<lparr>isLoading := True, error := None\<rparr>"

definition fetch_finish :: "runtime \<Rightarrow> outcome \<Rightarrow> state \<Rightarrow> state" where
  "fetch_finish rt out s =
     (case out of
        Rejected \<Rightarrow> handleFetchError s
      | Resolved data \<Rightarrow>
          (case updateGalleryState rt data s of
             Inl e \<Rightarrow> handleFetchError s
           | Inr s' \<Rightarrow> s'))\<lparr>isLoading := False\<rparr>"

definition fetchImages :: "runtime \<Rightarrow> outcome \<Rightarrow> state \<Rightarrow> state" where
  "fetchImages rt out s = fetch_finish rt out (fetch_start s)"

definition goToPreviousPage :: "runtime \<Rightarrow> state \<Rightarrow> state" where
  "goToPreviousPage rt s =
     s\<lparr>currentPage := Num (math_max (num_plus (ToNumber rt (currentPage s)) (- 1)) (Fin 1))\<rparr>"

definition goToNextPage :: "runtime \<Rightarrow> state \<Rightarrow> state" where
  "goToNextPage rt s =
     s\<lparr>currentPage :=
          Num (math_min (ToNumber rt (plus_one rt (currentPage s))) (ToNumber rt (totalPages s)))\<rparr>"


section \<open>What the component renders\<close>






section \<open>Sequences of operations on the state\<close>




definition is_integer :: "rat \<Rightarrow> bool" where
  "is_integer r = (of_int \<lfloor>r\<rfloor> = r)"




section \<open>When the component fetches\<close>

text \<open>
  \<open>fetchImages\<close> is memoised on \<open>currentPage\<close> (its two other dependencies are memoised on
  nothing and never change), and the effect depends on \<open>fetchImages\<close> alone. So after a
  click the effect runs, and calls \<open>fetchImages\<close>, exactly when \<open>currentPage\<close> is not the
  same value as before the click. \<open>requests\<close> lists the page of every request issued so
  far.
\<close>

record gallery =
  st :: state
  requests :: "jsval list"

definition issue_fetch :: "gallery \<Rightarrow> gallery" where
  "issue_fetch g = g\<lparr>st := fetch_start (st g), requests := requests g @ [currentPage (st g)]\<rparr>"

definition useEffect :: "jsval \<Rightarrow> gallery \<Rightarrow> gallery" where
  "useEffect page_before g =
     (if same_value page_before (currentPage (st g)) then g else issue_fetch g)"

definition mount :: gallery where
  "mount = issue_fetch \<lparr>st = initial, requests = []\<rparr>"

definition handleRefresh :: "gallery \<Rightarrow> gallery" where
  "handleRefresh g = issue_fetch g"

definition click_previous :: "runtime \<Rightarrow> gallery \<Rightarrow> gallery" where
  "click_previous rt g = useEffect (currentPage (st g)) (g\<lparr>st := goToPreviousPage rt (st g)\<rparr>)"

definition click_next :: "runtime \<Rightarrow> gallery \<Rightarrow> gallery" where
  "click_next rt g = useEffect (currentPage (st g)) (g\<lparr>st := goToNextPage rt (st g)\<rparr>)"


section \<open>A runtime for evaluating examples\<close>

text \<open>
  In the examples evaluated below no string, array or object is ever converted, so the
  two conversions are never called; they are fixed to constants.
\<close>

definition plain_runtime :: runtime where
  "plain_runtime = \<lparr>string_to_number = (\<lambda>s. NaN), to_string = (\<lambda>v. [])\<rparr>"

section \<open>Properties of the rounding\<close>

lemma pow2_less_imp: "(2::rat) powi m < 2 powi n \<Longrightarrow> m < n"
proof (rule ccontr)
  assume a: "(2::rat) powi m < 2 powi n" and "\<not> m < n"
  then have "n \<le> m" by simp
  then have "(2::rat) powi n \<le> 2 powi m" by (rule power_int_increasing) simp
  with a show False by simp
qed

lemma pow2_mono: "m \<le> n \<Longrightarrow> (2::rat) powi m \<le> 2 powi n"
  by (rule power_int_increasing) simp_all

lemma expo_bounds:
  assumes "0 < a"
  shows "2 powi (expo a) \<le> a" and "a < 2 powi (expo a + 1)"
proof -
  show "2 powi (expo a) \<le> a"
  proof (cases "1 \<le> a")
    case True
    then have n: "0 < \<lfloor>a\<rfloor>" by simp
    from bitlen_bounds [OF n] have "2 ^ nat (bitlen \<lfloor>a\<rfloor> - 1) \<le> \<lfloor>a\<rfloor>" by simp
    then have "(of_int (2 ^ nat (bitlen \<lfloor>a\<rfloor> - 1)) :: rat) \<le> of_int \<lfloor>a\<rfloor>"
      by (simp only: of_int_le_iff)
    also have "\<dots> \<le> a" by simp
    finally have "(2::rat) ^ nat (bitlen \<lfloor>a\<rfloor> - 1) \<le> a" by simp
    moreover have "0 \<le> bitlen \<lfloor>a\<rfloor> - 1"
      using n by (simp add: bitlen_alt_def)
    ultimately show ?thesis using True
      by (simp add: expo_def power_int_nonneg_exp)
  next
    case False
    define N where "N = \<lceil>1 / a\<rceil>"
    define k where "k = bitlen (N - 1)"
    from False assms have "1 < 1 / a" by simp
    then have N2: "2 \<le> N" unfolding N_def by linarith
    then have pos: "0 < N - 1" by simp
    from bitlen_bounds [OF pos] have "N - 1 < 2 ^ nat k" by (simp add: k_def)
    then have "N \<le> 2 ^ nat k" by simp
    then have "(of_int N :: rat) \<le> of_int (2 ^ nat k)" by (simp only: of_int_le_iff)
    then have "(of_int N :: rat) \<le> 2 ^ nat k" by simp
    moreover have "1 / a \<le> of_int N" unfolding N_def by simp
    ultimately have "1 / a \<le> 2 ^ nat k" by linarith
    then have "1 \<le> 2 ^ nat k * a" using assms by (simp add: field_simps)
    then have "1 / 2 ^ nat k \<le> a" by (simp add: field_simps)
    moreover have "0 \<le> k" by (simp add: k_def bitlen_nonneg)
    then have "(2::rat) powi (- k) = 1 / 2 ^ nat k"
      by (simp add: power_int_minus_divide power_int_nonneg_exp)
    ultimately show ?thesis using False
      by (simp add: expo_def N_def k_def)
  qed
  show "a < 2 powi (expo a + 1)"
  proof (cases "1 \<le> a")
    case True
    then have n: "0 < \<lfloor>a\<rfloor>" by simp
    from bitlen_bounds [OF n] have "\<lfloor>a\<rfloor> + 1 \<le> 2 ^ nat (bitlen \<lfloor>a\<rfloor>)" by simp
    then have "(of_int (\<lfloor>a\<rfloor> + 1) :: rat) \<le> of_int (2 ^ nat (bitlen \<lfloor>a\<rfloor>))"
      by (simp only: of_int_le_iff)
    moreover have "a < of_int (\<lfloor>a\<rfloor> + 1)" by linarith
    ultimately have "a < 2 ^ nat (bitlen \<lfloor>a\<rfloor>)" by simp
    moreover have "0 \<le> bitlen \<lfloor>a\<rfloor>" by (simp add: bitlen_nonneg)
    ultimately show ?thesis using True
      by (simp add: expo_def power_int_nonneg_exp)
  next
    case False
    define N where "N = \<lceil>1 / a\<rceil>"
    define k where "k = bitlen (N - 1)"
    from False assms have "1 < 1 / a" by simp
    then have N2: "2 \<le> N" unfolding N_def by linarith
    then have pos: "0 < N - 1" by simp
    have k1: "1 \<le> k" using pos by (simp add: k_def bitlen_alt_def)
    from bitlen_bounds [OF pos] have "2 ^ nat (k - 1) \<le> N - 1" by (simp add: k_def)
    then have "(of_int (2 ^ nat (k - 1)) :: rat) \<le> of_int (N - 1)" by (simp only: of_int_le_iff)
    moreover have "of_int (N - 1) < 1 / a" unfolding N_def by linarith
    ultimately have "2 ^ nat (k - 1) < 1 / a" by simp
    then have "2 ^ nat (k - 1) * a < 1" using assms by (simp add: field_simps)
    then have "a < 1 / 2 ^ nat (k - 1)" by (simp add: field_simps)
    moreover have "(2::rat) powi (- (k - 1)) = 1 / 2 ^ nat (k - 1)"
      using k1 by (simp only: power_int_minus_divide) (simp add: power_int_nonneg_exp)
    moreover have "expo a + 1 = - (k - 1)"
      using False by (simp add: expo_def N_def k_def)
    ultimately show ?thesis by simp
  qed
qed

lemma expo_unique:
  assumes "2 powi k \<le> a" "a < 2 powi (k + 1)"
  shows "expo a = k"
proof -
  have pos: "0 < a"
    using assms(1) zero_less_power_int [of "2::rat" k] by linarith
  note b = expo_bounds [OF pos]
  have "(2::rat) powi k < 2 powi (expo a + 1)" using assms(1) b(2) by linarith
  then have "k < expo a + 1" by (rule pow2_less_imp)
  moreover have "(2::rat) powi (expo a) < 2 powi (k + 1)" using assms(2) b(1) by linarith
  then have "expo a < k + 1" by (rule pow2_less_imp)
  ultimately show ?thesis by simp
qed

lemma expo_mono:
  assumes "0 < a" "a \<le> b"
  shows "expo a \<le> expo b"
proof -
  have "0 < b" using assms by simp
  from expo_bounds(1) [OF assms(1)] expo_bounds(2) [OF this] assms(2)
  have "(2::rat) powi (expo a) < 2 powi (expo b + 1)" by linarith
  then have "expo a < expo b + 1" by (rule pow2_less_imp)
  then show ?thesis by simp
qed

lemma rhe_of_int: "round_half_even (of_int n) = n"
  by (simp add: round_half_even_def)


lemma rhe_ge: "of_int N \<le> m \<Longrightarrow> N \<le> round_half_even m"
proof -
  assume "of_int N \<le> m"
  then have "N \<le> \<lfloor>m\<rfloor>" by (simp add: le_floor_iff)
  then show ?thesis by (auto simp: round_half_even_def Let_def)
qed


lemma quantum_pos: "0 < quantum a"
  by (simp add: quantum_def)

lemma binade_mono: "0 < a \<Longrightarrow> a \<le> b \<Longrightarrow> binade a \<le> binade b"
  using expo_mono [of a b] by (simp add: binade_def)

lemma to_double_pos:
  "0 < x \<Longrightarrow> to_double x =
     (if 2 ^ 1024 \<le> of_int (round_half_even (x / quantum x)) * quantum x then PosInf
      else Fin (of_int (round_half_even (x / quantum x)) * quantum x))"
  by (simp add: to_double_def Let_def)

lemma to_double_neg:
  "x < 0 \<Longrightarrow> to_double x =
     (if 2 ^ 1024 \<le> of_int (round_half_even (- x / quantum (- x))) * quantum (- x) then NegInf
      else Fin (- (of_int (round_half_even (- x / quantum (- x))) * quantum (- x))))"
  by (simp add: to_double_def Let_def)

lemma pow2_split: "k \<le> n \<Longrightarrow> (2::rat) powi n = of_int (2 ^ nat (n - k)) * 2 powi k"
proof -
  assume "k \<le> n"
  then have "(2::rat) powi (n - k) = 2 ^ nat (n - k)"
    by (simp add: power_int_nonneg_exp)
  moreover have "(2::rat) powi n = 2 powi (n - k) * 2 powi k"
    by (simp flip: power_int_add)
  ultimately show ?thesis by simp
qed

text \<open>
  A positive multiple of a power of two that is no finer than the number's own quantum is
  a double.
\<close>

lemma multiple_is_double:
  assumes "0 < y" "y < 2 ^ 1024" "y = of_int N * 2 powi k" "binade y - 52 \<le> k"
  shows "to_double y = Fin y"
proof -
  define K :: int where "K = 2 ^ nat (k - (binade y - 52))"
  from pow2_split [OF assms(4)] have "(2::rat) powi k = of_int K * quantum y"
    by (simp add: quantum_def K_def)
  with assms(3) have y: "y = of_int (N * K) * quantum y" by simp
  have "y / quantum y = of_int (N * K)"
    using quantum_pos [of y] by (subst y) simp
  then have "of_int (round_half_even (y / quantum y)) * quantum y = y"
    using y by (simp only: rhe_of_int)
  with assms(1,2) show ?thesis by (simp add: to_double_pos)
qed

lemma binade_le:
  assumes "0 < y" "y < 2 powi (b + 1)" "- 1022 \<le> b"
  shows "binade y \<le> b"
proof -
  from expo_bounds(1) [OF assms(1)] assms(2) have "(2::rat) powi (expo y) < 2 powi (b + 1)"
    by linarith
  then have "expo y < b + 1" by (rule pow2_less_imp)
  with assms(3) show ?thesis by (simp add: binade_def)
qed

lemma binade_lower: "- 1022 \<le> binade a" and binade_upper: "binade a \<le> 1023"
  by (simp_all add: binade_def)

lemma expo_le_binade: "binade a < 1023 \<Longrightarrow> expo a \<le> binade a"
  by (auto simp: binade_def min_def max_def split: if_splits)

lemma binade_le_expo: "- 1022 < binade a \<Longrightarrow> binade a \<le> expo a"
  by (auto simp: binade_def min_def max_def split: if_splits)

lemma safe_nat_double:
  assumes "0 \<le> n" "n \<le> 2 ^ 53"
  shows "to_double (of_int n) = Fin (of_int n)"
proof (cases "n = 0")
  case True
  then show ?thesis by (simp add: to_double_def)
next
  case False
  with assms have pos: "0 < (of_int n :: rat)" by simp
  have big: "(of_int n :: rat) < 2 ^ 1024"
  proof -
    have "(of_int n :: rat) \<le> of_int (2 ^ 53)" using assms(2) by (simp only: of_int_le_iff)
    also have "\<dots> < 2 ^ 1024" by simp
    finally show ?thesis .
  qed
  show ?thesis
  proof (cases "n = 2 ^ 53")
    case True
    have "binade (of_int n) \<le> 53"
      by (rule binade_le [OF pos]) (simp_all add: True)
    then show ?thesis
      by (intro multiple_is_double [OF pos big, of "2 ^ 52" 1]) (simp_all add: True)
  next
    case False
    with assms(2) have "n < 2 ^ 53" by simp
    then have "(of_int n :: rat) < of_int (2 ^ 53)" by (simp only: of_int_less_iff)
    then have "binade (of_int n) \<le> 52"
      by (intro binade_le [OF pos]) simp_all
    then show ?thesis
      by (intro multiple_is_double [OF pos big, of n 0]) simp_all
  qed
qed

lemma safe_int_double:
  assumes "\<bar>n\<bar> \<le> 2 ^ 53"
  shows "to_double (of_int n) = Fin (of_int n)"
proof (cases "0 \<le> n")
  case True
  with assms show ?thesis by (simp add: safe_nat_double)
next
  case False
  then have neg: "(of_int n :: rat) < 0" by simp
  from False assms have "0 \<le> - n" "- n \<le> 2 ^ 53" by simp_all
  from safe_nat_double [OF this] have d: "to_double (- of_int n) = Fin (- of_int n)" by simp
  have p: "0 < - (of_int n :: rat)" using neg by simp
  from d show ?thesis
    unfolding to_double_pos [OF p] to_double_neg [OF neg]
    by (simp split: if_splits)
qed

lemma safe_rat_double: "r \<in> \<int> \<Longrightarrow> \<bar>r\<bar> \<le> 2 ^ 53 \<Longrightarrow> to_double r = Fin r"
proof -
  assume "r \<in> \<int>" and b: "\<bar>r\<bar> \<le> 2 ^ 53"
  then obtain n where r: "r = of_int n" by (auto elim: Ints_cases)
  with b have "(of_int \<bar>n\<bar> :: rat) \<le> of_int (2 ^ 53)" by simp
  then have "\<bar>n\<bar> \<le> 2 ^ 53" by (simp only: of_int_le_iff)
  then show ?thesis unfolding r by (rule safe_int_double)
qed

lemma double_multiple:
  assumes "0 < d" "to_double d = Fin d"
  obtains N :: int where "d = of_int N * quantum d" and "d < 2 ^ 1024"
proof -
  from assms have "d = of_int (round_half_even (d / quantum d)) * quantum d \<and> d < 2 ^ 1024"
    by (simp add: to_double_pos split: if_splits)
  then show thesis using that by blast
qed

lemma to_double_cases:
  assumes "0 < x"
  obtains "to_double x = PosInf"
  | "to_double x = Fin (of_int (round_half_even (x / quantum x)) * quantum x)"
      and "of_int (round_half_even (x / quantum x)) * quantum x < 2 ^ 1024"
  using assms by (simp add: to_double_pos split: if_splits) force


lemma round_value_above:
  assumes "0 < d" "d \<le> x" "to_double d = Fin d"
  shows "d \<le> of_int (round_half_even (x / quantum x)) * quantum x"
proof -
  have xpos: "0 < x" using assms by simp
  obtain N where d: "d = of_int N * quantum d" and fin: "d < 2 ^ 1024"
    using double_multiple [OF assms(1,3)] by blast
  define r where "r = round_half_even (x / quantum x)"
  have mono: "binade d \<le> binade x" by (rule binade_mono [OF assms(1,2)])
  show ?thesis
  proof (cases "binade d = binade x")
    case True
    then have q: "quantum d = quantum x" by (simp add: quantum_def)
    have "of_int N \<le> x / quantum x"
      using assms(2) quantum_pos [of x] by (subst (asm) d) (simp add: q field_simps)
    then have "N \<le> r" unfolding r_def by (rule rhe_ge)
    then have "(of_int N :: rat) \<le> of_int r" by (simp only: of_int_le_iff)
    then have "of_int N * quantum x \<le> of_int r * quantum x"
      using quantum_pos [of x] by (simp only: mult_le_cancel_right_pos)
    with d q show ?thesis by (simp add: r_def)
  next
    case False
    with mono have lt: "binade d < binade x" by simp
    have "- 1022 < binade x" using lt binade_lower [of d] by linarith
    then have "binade x \<le> expo x" by (rule binade_le_expo)
    then have "(2::rat) powi (binade x) \<le> 2 powi (expo x)" by (rule pow2_mono)
    also have "\<dots> \<le> x" by (rule expo_bounds(1) [OF xpos])
    finally have lower: "2 powi (binade x) \<le> x" .
    have split: "(2::rat) powi (binade x) = of_int (2 ^ 52) * quantum x"
      using pow2_split [of "binade x - 52" "binade x"] by (simp add: quantum_def)
    have "of_int (2 ^ 52) \<le> x / quantum x"
      using lower quantum_pos [of x] by (subst (asm) split) (simp add: field_simps)
    then have "2 ^ 52 \<le> r" unfolding r_def by (rule rhe_ge)
    then have "(of_int (2 ^ 52) :: rat) \<le> of_int r" by (simp only: of_int_le_iff)
    then have "of_int (2 ^ 52) * quantum x \<le> of_int r * quantum x"
      using quantum_pos [of x] by (simp only: mult_le_cancel_right_pos)
    with split have y: "2 powi (binade x) \<le> of_int r * quantum x" by simp
    have "binade d < 1023" using lt binade_upper [of x] by linarith
    then have "expo d \<le> binade d" by (rule expo_le_binade)
    with lt have "expo d + 1 \<le> binade x" by simp
    then have "(2::rat) powi (expo d + 1) \<le> 2 powi (binade x)" by (rule pow2_mono)
    with expo_bounds(2) [OF assms(1)] have "d < 2 powi (binade x)" by linarith
    with y show ?thesis by (simp add: r_def)
  qed
qed

lemma round_above:
  assumes "0 < d" "d \<le> x" "to_double d = Fin d"
  shows "to_double x = PosInf \<or> (\<exists>y. to_double x = Fin y \<and> d \<le> y)"
proof -
  have xpos: "0 < x" using assms by simp
  from round_value_above [OF assms] show ?thesis
    by (cases rule: to_double_cases [OF xpos]) auto
qed



lemma rhe_eval:
  assumes "of_int n \<le> m" "m < of_int n + 1"
  shows "round_half_even m =
     (if m - of_int n < 1 / 2 then n else if 1 / 2 < m - of_int n then n + 1
      else if even n then n else n + 1)"
proof -
  from assms have "\<lfloor>m\<rfloor> = n" by (rule floor_unique)
  then show ?thesis by (simp add: round_half_even_def)
qed

lemma to_double_eval:
  assumes "2 powi e \<le> x" "x < 2 powi (e + 1)" "- 1022 \<le> e" "e \<le> 1023"
    and "round_half_even (x / 2 powi (e - 52)) = r"
    and "(of_int r :: rat) * 2 powi (e - 52) < 2 ^ 1024"
  shows "to_double x = Fin (of_int r * 2 powi (e - 52))"
proof -
  have pos: "0 < x" using assms(1) zero_less_power_int [of "2::rat" e] by linarith
  have "expo x = e" using assms(1,2) by (rule expo_unique)
  with assms(3,4) have "quantum x = 2 powi (e - 52)" by (simp add: quantum_def binade_def)
  with assms(5,6) show ?thesis by (simp add: to_double_pos [OF pos])
qed

lemma round_2_53_plus_1: "to_double (2 ^ 53 + 1) = Fin (2 ^ 53)"
proof -
  have r: "round_half_even ((2 ^ 53 + 1) / 2 powi (53 - 52)) = 2 ^ 52"
    by (subst rhe_eval [of "2 ^ 52"]) simp_all
  have "to_double (2 ^ 53 + 1) = Fin (of_int (2 ^ 52) * 2 powi (53 - 52))"
    by (rule to_double_eval [OF _ _ _ _ r]) simp_all
  then show ?thesis by simp
qed



section \<open>The sanitizer: the scan of the pattern is the two-sided strip\<close>

lemma match_here_False:
  "match_here False s = (if s \<noteq> [] \<and> (\<forall>x\<in>set s. trail_class x) then Some (length s) else None)"
proof -
  have "(length (takeWhile trail_class s) = length s) = (\<forall>x\<in>set s. trail_class x)"
    by (metis takeWhile_eq_all_conv takeWhile_eq_take take_all_iff le_refl)
  then show ?thesis
    by (auto simp: match_here_def Let_def)
qed

lemma replace_all_False: "replace_all False s = rev (dropWhile trail_class (rev s))"
proof (induction s)
  case Nil
  show ?case by simp
next
  case (Cons c cs)
  show ?case
  proof (cases "\<forall>x\<in>set (c # cs). trail_class x")
    case True
    then show ?thesis by (simp add: match_here_False)
  next
    case False
    then have "replace_all False (c # cs) = c # replace_all False cs"
      by (simp add: match_here_False)
    moreover from False have "rev (dropWhile trail_class (rev (c # cs))) = c # rev (dropWhile trail_class (rev cs))"
      by (auto simp: dropWhile_append)
    ultimately show ?thesis using Cons.IH by simp
  qed
qed

lemma match_here_True:
  "match_here True s =
     (if takeWhile lead_class s \<noteq> [] then Some (length (takeWhile lead_class s)) else match_here False s)"
  by (simp add: match_here_def Let_def)

lemma replace_all_True: "replace_all True s = replace_all False (dropWhile lead_class s)"
proof (cases s)
  case Nil
  then show ?thesis by simp
next
  case (Cons c cs)
  show ?thesis
  proof (cases "takeWhile lead_class s = []")
    case True
    then have "dropWhile lead_class s = s"
      by (metis takeWhile_dropWhile_id append_Nil)
    with True Cons show ?thesis by (simp add: match_here_True)
  next
    case False
    have "drop (length (takeWhile lead_class s)) s = dropWhile lead_class s"
      by (simp add: dropWhile_eq_drop)
    with False Cons show ?thesis by (simp add: match_here_True)
  qed
qed

lemma replace_all_strip: "replace_all True s = strip_spec s"
  by (simp add: replace_all_True replace_all_False strip_spec_def)

lemma parseUsername_Str:
  "parseUsername (Str s) = (if strip_spec s = [] then ''Unknown User'' else strip_spec s)"
  by (simp add: parseUsername_def replace_all_strip)

lemma strip_spec_prefix: "\<exists>zs. dropWhile lead_class s = strip_spec s @ zs"
proof -
  define t where "t = dropWhile lead_class s"
  have "rev t = takeWhile trail_class (rev t) @ dropWhile trail_class (rev t)"
    by simp
  then have "t = rev (dropWhile trail_class (rev t)) @ rev (takeWhile trail_class (rev t))"
    by (metis rev_append rev_rev_ident)
  then show ?thesis
    unfolding strip_spec_def t_def by blast
qed

lemma strip_spec_hd:
  assumes "strip_spec s \<noteq> []"
  shows "\<not> lead_class (hd (strip_spec s))"
proof -
  obtain zs where eq: "dropWhile lead_class s = strip_spec s @ zs"
    using strip_spec_prefix by blast
  with assms have ne: "dropWhile lead_class s \<noteq> []" by auto
  from eq assms have "hd (strip_spec s) = hd (dropWhile lead_class s)" by simp
  with ne show ?thesis by (simp add: hd_dropWhile)
qed

lemma strip_spec_last:
  assumes "strip_spec s \<noteq> []"
  shows "\<not> trail_class (last (strip_spec s))"
proof -
  from assms have ne: "dropWhile trail_class (rev (dropWhile lead_class s)) \<noteq> []"
    by (simp add: strip_spec_def)
  then have "\<not> trail_class (hd (dropWhile trail_class (rev (dropWhile lead_class s))))"
    by (rule hd_dropWhile)
  with ne show ?thesis by (simp add: strip_spec_def last_rev)
qed

lemma strip_spec_fixed:
  assumes "r \<noteq> []" "\<not> lead_class (hd r)" "\<not> trail_class (last r)"
  shows "strip_spec r = r"
proof -
  from assms(1,2) have "dropWhile lead_class r = r"
    by (cases r) simp_all
  moreover from assms(1,3) have "dropWhile trail_class (rev r) = rev r"
    by (cases "rev r") (simp_all add: last_rev [symmetric] hd_rev)
  ultimately show ?thesis by (simp add: strip_spec_def)
qed

lemma unknown_user_edges:
  "\<not> lead_class (hd ''Unknown User'')" "\<not> trail_class (last ''Unknown User'')"
  by (simp_all add: lead_class_def trail_class_def)

lemma parseUsername_edges:
  "parseUsername v \<noteq> [] \<and> \<not> lead_class (hd (parseUsername v)) \<and> \<not> trail_class (last (parseUsername v))"
proof (cases "\<exists>s. v = Str s \<and> strip_spec s \<noteq> []")
  case True
  then obtain s where "v = Str s" "strip_spec s \<noteq> []" by blast
  then show ?thesis
    by (simp add: parseUsername_Str strip_spec_hd strip_spec_last)
next
  case False
  then have "parseUsername v = ''Unknown User''"
    by (cases v) (simp_all add: parseUsername_Str, simp_all add: parseUsername_def)
  then show ?thesis using unknown_user_edges by simp
qed

text \<open>
  Claim C9. The username sanitizer is total; on every value that is not a string it
  returns \<open>Unknown User\<close>; on a string it removes the leading run of the characters
  \<^verbatim>\<open>" ' {\<close> and then the trailing run of the characters \<^verbatim>\<open>} " '\<close>, and returns
  \<open>Unknown User\<close> when nothing is left and the stripped string otherwise. The four
  examples of the specification are evaluated on the scan of the pattern.
\<close>

theorem parseUsername_contract:
  "parseUsername v =
     (case v of
        Str s \<Rightarrow> (if strip_spec s = [] then ''Unknown User'' else strip_spec s)
      | _ \<Rightarrow> ''Unknown User'')
   \<and> parseUsername (Str ([CHR ''{'', CHR 0x22] @ ''alice'' @ [CHR 0x22, CHR ''}''])) = ''alice''
   \<and> parseUsername (Str ([CHR 0x27] @ ''alice'' @ [CHR 0x27])) = ''alice''
   \<and> parseUsername (Str ''{alice}'') = ''alice''
   \<and> parseUsername (Str ''{}'') = ''Unknown User''"
proof -
  have "parseUsername v =
     (case v of
        Str s \<Rightarrow> (if strip_spec s = [] then ''Unknown User'' else strip_spec s)
      | _ \<Rightarrow> ''Unknown User'')"
    by (cases v) (simp_all add: parseUsername_Str, simp_all add: parseUsername_def)
  moreover have "parseUsername (Str ([CHR ''{'', CHR 0x22] @ ''alice'' @ [CHR 0x22, CHR ''}''])) = ''alice''"
    by (simp add: parseUsername_Str strip_spec_def lead_class_def trail_class_def)
  moreover have "parseUsername (Str ([CHR 0x27] @ ''alice'' @ [CHR 0x27])) = ''alice''"
    by (simp add: parseUsername_Str strip_spec_def lead_class_def trail_class_def)
  moreover have "parseUsername (Str ''{alice}'') = ''alice''"
    by (simp add: parseUsername_Str strip_spec_def lead_class_def trail_class_def)
  moreover have "parseUsername (Str ''{}'') = ''Unknown User''"
    by (simp add: parseUsername_Str strip_spec_def lead_class_def trail_class_def)
  ultimately show ?thesis by blast
qed

text \<open>
  Claim C10. The username sanitizer is idempotent and never returns the empty string:
  its result is nonempty, starts with a character outside \<^verbatim>\<open>" ' {\<close> and ends with a
  character outside \<^verbatim>\<open>} " '\<close> (which the placeholder \<open>Unknown User\<close> does as well).
\<close>

theorem parseUsername_idempotent:
  "parseUsername (Str (parseUsername v)) = parseUsername v
   \<and> parseUsername v \<noteq> []
   \<and> \<not> lead_class (hd (parseUsername v))
   \<and> \<not> trail_class (last (parseUsername v))"
proof -
  note e = parseUsername_edges [of v]
  then have "strip_spec (parseUsername v) = parseUsername v"
    by (simp add: strip_spec_fixed)
  with e show ?thesis by (simp add: parseUsername_Str)
qed

section \<open>The outcomes of a fetch\<close>



lemma fetch_finish_invalid:
  assumes "rows_of data = None" "\<not> nullish data"
  shows "fetch_finish rt (Resolved data) s =
           s\<lparr>error := Some ''Received invalid data from server'', images := [], isLoading := False\<rparr>"
  using assms by (simp add: fetch_finish_def updateGalleryState_def)

lemma fetch_finish_thrown:
  assumes "nullish data"
  shows "fetch_finish rt (Resolved data) s =
           s\<lparr>error := Some ''Failed to load images. Please try again later.'', isLoading := False\<rparr>"
  using assms by (simp add: fetch_finish_def updateGalleryState_def handleFetchError_def)

lemma fetch_finish_rejected:
  "fetch_finish rt Rejected s =
           s\<lparr>error := Some ''Failed to load images. Please try again later.'', isLoading := False\<rparr>"
  by (simp add: fetch_finish_def handleFetchError_def)







text \<open>
  Claim C2: the code at a failing input. A fetch attempt whose request rejects ends with
  the fixed message, \<open>isLoading\<close> false and both page fields as they were, but the images
  are not cleared: \<open>handleFetchError\<close> sets the error only. Started from a state that shows
  one image, the attempt still shows that image.
\<close>

theorem transport_failure_keeps_images:
  "fetchImages rt Rejected s =
     s\<lparr>error := Some ''Failed to load images. Please try again later.'', isLoading := False\<rparr>
   \<and> images (fetchImages plain_runtime Rejected
        (initial\<lparr>images := [Obj [(''id'', Num (Fin 7))]]\<rparr>)) = [Obj [(''id'', Num (Fin 7))]]"
  by (simp add: fetchImages_def fetch_finish_rejected fetch_start_def)

text \<open>
  Every body other than \<open>null\<close> and \<open>undefined\<close> that fails the shape test is handled as
  the specification says.
\<close>

lemma shape_failure_handled:
  assumes "rows_of data = None" "\<not> nullish data"
  shows "fetchImages rt (Resolved data) s =
     s\<lparr>images := [], error := Some ''Received invalid data from server'', isLoading := False\<rparr>"
  using assms by (simp add: fetchImages_def fetch_finish_invalid fetch_start_def)

text \<open>
  Claim C3: the code at a failing input. The body \<open>null\<close> has no \<open>images\<close> container, but
  reading \<^verbatim>\<open>data.images\<close> throws before the shape test is made; the exception is caught
  as a transport failure, so the message is the transport one and the images stay.
\<close>

theorem null_body_not_handled:
  "rows_of Null = None
   \<and> fetchImages rt (Resolved Null) s =
     s\<lparr>error := Some ''Failed to load images. Please try again later.'', isLoading := False\<rparr>
   \<and> images (fetchImages plain_runtime (Resolved Null)
        (initial\<lparr>images := [Obj [(''id'', Num (Fin 7))]]\<rparr>)) = [Obj [(''id'', Num (Fin 7))]]"
  by (simp add: fetchImages_def fetch_finish_thrown fetch_start_def nullish_def rows_of_def
      field_def truthy_def)




section \<open>Navigation and the pagination invariant\<close>

lemma is_integer_iff: "is_integer r \<longleftrightarrow> r \<in> \<int>"
  unfolding is_integer_def
  by (metis Ints_of_int Ints_cases floor_of_int)



lemma previous_safe:
  assumes "p \<in> \<int>" "\<bar>p\<bar> < 2 ^ 53"
  shows "goToPreviousPage rt (s\<lparr>currentPage := Num (Fin p)\<rparr>) = s\<lparr>currentPage := Num (Fin (max (p - 1) 1))\<rparr>"
proof -
  obtain n where p: "p = of_int n" using assms(1) by (auto elim: Ints_cases)
  with assms(2) have "(of_int \<bar>n\<bar> :: rat) < of_int (2 ^ 53)" by simp
  then have "\<bar>n\<bar> < 2 ^ 53" by (simp only: of_int_less_iff)
  then have "\<bar>n - 1\<bar> \<le> 2 ^ 53" by simp
  from safe_int_double [OF this] have "to_double (p - 1) = Fin (p - 1)" by (simp add: p)
  then show ?thesis
    by (simp add: goToPreviousPage_def ToNumber_def math_max_def max_def)
qed

lemma next_safe:
  assumes "p \<in> \<int>" "\<bar>p\<bar> < 2 ^ 53"
  shows "goToNextPage rt (s\<lparr>currentPage := Num (Fin p), totalPages := Num (Fin t)\<rparr>)
     = s\<lparr>currentPage := Num (Fin (min (p + 1) t)), totalPages := Num (Fin t)\<rparr>"
proof -
  obtain n where p: "p = of_int n" using assms(1) by (auto elim: Ints_cases)
  with assms(2) have "(of_int \<bar>n\<bar> :: rat) < of_int (2 ^ 53)" by simp
  then have "\<bar>n\<bar> < 2 ^ 53" by (simp only: of_int_less_iff)
  then have "\<bar>n + 1\<bar> \<le> 2 ^ 53" by simp
  from safe_int_double [OF this] have "to_double (p + 1) = Fin (p + 1)" by (simp add: p)
  then show ?thesis
    by (simp add: goToNextPage_def ToNumber_def plus_one_def math_min_def min_def)
qed

lemma next_at_end:
  assumes "to_double t = Fin t" "1 \<le> t"
  shows "goToNextPage rt (s\<lparr>currentPage := Num (Fin t), totalPages := Num (Fin t)\<rparr>)
     = s\<lparr>currentPage := Num (Fin t), totalPages := Num (Fin t)\<rparr>"
proof -
  have "0 < t" "t \<le> t + 1" using assms(2) by simp_all
  from round_above [OF this assms(1)]
  have "math_min (to_double (t + 1)) (Fin t) = Fin t"
    by (auto simp: math_min_def)
  then show ?thesis
    by (simp add: goToNextPage_def ToNumber_def plus_one_def)
qed

text \<open>
  Claim C6, as amended. On an integer current page \<open>p\<close> with \<open>|p| < 2 ^ 53\<close> (so for every
  page from 1 to \<open>2 ^ 53 - 1\<close>) and any finite total \<open>t\<close>, the previous-page operation gives
  \<open>max (p - 1) 1\<close> and the next-page operation gives \<open>min (p + 1) t\<close>, and no other field
  of the state changes; previous(1) = 1, previous(5) = 4, next(t) = t for every double
  \<open>t \<ge> 1\<close>, and next(3) = 4 when \<open>t \<ge> 4\<close>.
\<close>

theorem navigation_clamped:
  "(is_integer p \<and> \<bar>p\<bar> < 2 ^ 53 \<longrightarrow>
      goToPreviousPage rt (s\<lparr>currentPage := Num (Fin p)\<rparr>) = s\<lparr>currentPage := Num (Fin (max (p - 1) 1))\<rparr>
      \<and> goToNextPage rt (s\<lparr>currentPage := Num (Fin p), totalPages := Num (Fin t)\<rparr>)
          = s\<lparr>currentPage := Num (Fin (min (p + 1) t)), totalPages := Num (Fin t)\<rparr>)
   \<and> goToPreviousPage rt (s\<lparr>currentPage := Num (Fin 1)\<rparr>) = s\<lparr>currentPage := Num (Fin 1)\<rparr>
   \<and> goToPreviousPage rt (s\<lparr>currentPage := Num (Fin 5)\<rparr>) = s\<lparr>currentPage := Num (Fin 4)\<rparr>
   \<and> (is_double t \<and> 1 \<le> t \<longrightarrow>
        goToNextPage rt (s\<lparr>currentPage := Num (Fin t), totalPages := Num (Fin t)\<rparr>)
          = s\<lparr>currentPage := Num (Fin t), totalPages := Num (Fin t)\<rparr>)
   \<and> (4 \<le> t \<longrightarrow>
        goToNextPage rt (s\<lparr>currentPage := Num (Fin 3), totalPages := Num (Fin t)\<rparr>)
          = s\<lparr>currentPage := Num (Fin 4), totalPages := Num (Fin t)\<rparr>)"
proof -
  have one: "goToPreviousPage rt (s\<lparr>currentPage := Num (Fin 1)\<rparr>) = s\<lparr>currentPage := Num (Fin 1)\<rparr>"
    using previous_safe [where p = 1 and rt = rt and s = s] by simp
  have five: "goToPreviousPage rt (s\<lparr>currentPage := Num (Fin 5)\<rparr>) = s\<lparr>currentPage := Num (Fin 4)\<rparr>"
    using previous_safe [where p = 5 and rt = rt and s = s] by simp
  have three: "goToNextPage rt (s\<lparr>currentPage := Num (Fin 3), totalPages := Num (Fin t)\<rparr>)
          = s\<lparr>currentPage := Num (Fin 4), totalPages := Num (Fin t)\<rparr>" if "4 \<le> t"
    using next_safe [where p = 3 and rt = rt and s = s and t = t] that by simp
  from one five three show ?thesis
    by (simp add: previous_safe next_safe next_at_end is_integer_iff is_double_def)
qed

theorem navigation_clamped_witness:
  "goToPreviousPage plain_runtime (initial\<lparr>currentPage := Num (Fin 7)\<rparr>)
       = initial\<lparr>currentPage := Num (Fin 6)\<rparr>
   \<and> goToNextPage plain_runtime (initial\<lparr>currentPage := Num (Fin 7), totalPages := Num (Fin 9)\<rparr>)
       = initial\<lparr>currentPage := Num (Fin 8), totalPages := Num (Fin 9)\<rparr>
   \<and> goToNextPage plain_runtime (initial\<lparr>currentPage := Num (Fin 9), totalPages := Num (Fin 9)\<rparr>)
       = initial\<lparr>currentPage := Num (Fin 9), totalPages := Num (Fin 9)\<rparr>
   \<and> goToNextPage plain_runtime (initial\<lparr>currentPage := Num (Fin 3), totalPages := Num (Fin 9)\<rparr>)
       = initial\<lparr>currentPage := Num (Fin 4), totalPages := Num (Fin 9)\<rparr>"
proof -
  have i: "is_integer 7" by (simp add: is_integer_def)
  have d: "is_double 9" using safe_rat_double [of 9] by (simp add: is_double_def)
  from navigation_clamped [where rt = plain_runtime and s = initial and p = 7 and t = 9] i d
  show ?thesis by simp
qed

text \<open>
  Claim C6 as stated fails from \<open>2 ^ 53\<close> on, where adding or subtracting 1 is rounded.
  Next on page \<open>2 ^ 53\<close> of \<open>2 ^ 53 + 2\<close> stays on page \<open>2 ^ 53\<close>, where
  \<open>min (p + 1) t\<close> is \<open>2 ^ 53 + 1\<close>; Previous on page \<open>2 ^ 53 + 2\<close> gives \<open>2 ^ 53\<close>,
  where \<open>max (p - 1) 1\<close> is \<open>2 ^ 53 + 1\<close>.
\<close>

theorem navigation_rounding_counterexample:
  "currentPage (goToNextPage plain_runtime
      (initial\<lparr>currentPage := Num (Fin (2 ^ 53)), totalPages := Num (Fin (2 ^ 53 + 2))\<rparr>))
     = Num (Fin (2 ^ 53))
   \<and> min (2 ^ 53 + 1) (2 ^ 53 + 2) \<noteq> (2 ^ 53 :: rat)
   \<and> currentPage (goToPreviousPage plain_runtime
      (initial\<lparr>currentPage := Num (Fin (2 ^ 53 + 2))\<rparr>))
     = Num (Fin (2 ^ 53))
   \<and> max (2 ^ 53 + 2 - 1) 1 \<noteq> (2 ^ 53 :: rat)"
proof -
  have r: "to_double 9007199254740993 = Fin 9007199254740992"
    using round_2_53_plus_1 by simp
  show ?thesis
    by (simp add: goToNextPage_def goToPreviousPage_def ToNumber_def plus_one_def
        math_min_def math_max_def r)
qed





lemma three_double: "to_double 3 = Fin 3"
  using safe_rat_double [of 3] by simp





section \<open>The rendering\<close>




section \<open>Navigation and fetching\<close>

lemma useEffect_number:
  "useEffect page_before (g\<lparr>st := s\<lparr>currentPage := Num n\<rparr>\<rparr>) =
     (if page_before = Num n then g\<lparr>st := s\<lparr>currentPage := Num n\<rparr>\<rparr>
      else issue_fetch (g\<lparr>st := s\<lparr>currentPage := Num n\<rparr>\<rparr>))"
  by (cases page_before) (auto simp: useEffect_def same_value_def)

lemma click_cases:
  fixes g :: gallery
  assumes "g' = useEffect (currentPage (st g)) (g\<lparr>st := (st g)\<lparr>currentPage := Num n\<rparr>\<rparr>)"
  shows "(currentPage (st g') = currentPage (st g) \<longrightarrow> g' = g)
       \<and> (currentPage (st g') \<noteq> currentPage (st g) \<longrightarrow>
            requests g' = requests g @ [currentPage (st g')]
            \<and> isLoading (st g') \<and> error (st g') = None)"
proof (cases "currentPage (st g) = Num n")
  case True
  with assms have "g' = g\<lparr>st := (st g)\<lparr>currentPage := Num n\<rparr>\<rparr>"
    by (simp add: useEffect_number)
  with True have "g' = g" by simp
  then show ?thesis by simp
next
  case False
  with assms have "g' = issue_fetch (g\<lparr>st := (st g)\<lparr>currentPage := Num n\<rparr>\<rparr>)"
    by (simp add: useEffect_number)
  with False show ?thesis
    by (simp add: issue_fetch_def fetch_start_def)
qed

text \<open>
  Claim C7. A click on Previous or Next that changes \<open>currentPage\<close> issues exactly one
  request, for the new page, and starts loading; a click that leaves \<open>currentPage\<close> as it
  is (such as Previous on page 1) issues no request and changes nothing.
\<close>

theorem navigation_fetches:
  fixes g :: gallery
  shows
  "(currentPage (st (click_previous rt g)) = currentPage (st g) \<longrightarrow> click_previous rt g = g)
   \<and> (currentPage (st (click_previous rt g)) \<noteq> currentPage (st g) \<longrightarrow>
        requests (click_previous rt g) = requests g @ [currentPage (st (click_previous rt g))]
        \<and> isLoading (st (click_previous rt g)) \<and> error (st (click_previous rt g)) = None)
   \<and> (currentPage (st (click_next rt g)) = currentPage (st g) \<longrightarrow> click_next rt g = g)
   \<and> (currentPage (st (click_next rt g)) \<noteq> currentPage (st g) \<longrightarrow>
        requests (click_next rt g) = requests g @ [currentPage (st (click_next rt g))]
        \<and> isLoading (st (click_next rt g)) \<and> error (st (click_next rt g)) = None)
   \<and> (currentPage (st g) = Num (Fin 1) \<longrightarrow> click_previous rt g = g)"
proof -
  have p: "click_previous rt g = useEffect (currentPage (st g))
      (g\<lparr>st := (st g)\<lparr>currentPage :=
         Num (math_max (num_plus (ToNumber rt (currentPage (st g))) (- 1)) (Fin 1))\<rparr>\<rparr>)"
    by (simp add: click_previous_def goToPreviousPage_def)
  have n: "click_next rt g = useEffect (currentPage (st g))
      (g\<lparr>st := (st g)\<lparr>currentPage :=
         Num (math_min (ToNumber rt (plus_one rt (currentPage (st g))))
                (ToNumber rt (totalPages (st g))))\<rparr>\<rparr>)"
    by (simp add: click_next_def goToNextPage_def)
  have one: "currentPage (st g) = Num (Fin 1) \<longrightarrow> click_previous rt g = g"
  proof
    assume a: "currentPage (st g) = Num (Fin 1)"
    then have "math_max (num_plus (ToNumber rt (currentPage (st g))) (- 1)) (Fin 1) = Fin 1"
      by (simp add: ToNumber_def math_max_def to_double_def)
    with a p have "click_previous rt g = g\<lparr>st := (st g)\<lparr>currentPage := Num (Fin 1)\<rparr>\<rparr>"
      by (simp add: useEffect_number)
    with a show "click_previous rt g = g" by simp
  qed
  from click_cases [OF p] click_cases [OF n] one show ?thesis by blast
qed

theorem navigation_fetches_witness:
  "currentPage (st (click_next plain_runtime
      \<lparr>st = initial\<lparr>currentPage := Num (Fin 2), totalPages := Num (Fin 3)\<rparr>, requests = [Num (Fin 2)]\<rparr>))
     \<noteq> Num (Fin 2)
   \<and> requests (click_next plain_runtime
      \<lparr>st = initial\<lparr>currentPage := Num (Fin 2), totalPages := Num (Fin 3)\<rparr>, requests = [Num (Fin 2)]\<rparr>)
     = [Num (Fin 2), Num (Fin 3)]
   \<and> isLoading (st (click_next plain_runtime
      \<lparr>st = initial\<lparr>currentPage := Num (Fin 2), totalPages := Num (Fin 3)\<rparr>, requests = [Num (Fin 2)]\<rparr>))
   \<and> click_previous plain_runtime \<lparr>st = initial, requests = [Num (Fin 1)]\<rparr>
     = \<lparr>st = initial, requests = [Num (Fin 1)]\<rparr>"
proof -
  have c: "currentPage (st (click_next plain_runtime
      \<lparr>st = initial\<lparr>currentPage := Num (Fin 2), totalPages := Num (Fin 3)\<rparr>, requests = [Num (Fin 2)]\<rparr>))
     = Num (Fin 3)"
    by (simp add: click_next_def goToNextPage_def useEffect_def same_value_def issue_fetch_def
        fetch_start_def plus_one_def ToNumber_def math_min_def initial_def three_double)
  have i: "currentPage (st \<lparr>st = initial, requests = [Num (Fin 1)]\<rparr>) = Num (Fin 1)"
    by (simp add: initial_def)
  from navigation_fetches [of plain_runtime
      "\<lparr>st = initial\<lparr>currentPage := Num (Fin 2), totalPages := Num (Fin 3)\<rparr>, requests = [Num (Fin 2)]\<rparr>"]
    navigation_fetches [of plain_runtime "\<lparr>st = initial, requests = [Num (Fin 1)]\<rparr>"] c i
  show ?thesis by simp
qed

end
